theory Spec2Isabelle
  imports Complex_Main "HOL-Library.Multiset" "HOL-Library.Log_Nat"
begin

section \<open>The bigram counting script \<open>project3/node/count.py\<close>\<close>

text \<open>
  The script is Python 2. It reads the file \<open>result\<close> line by line into a dictionary
  from bigram keys to counts, sorts the dictionary's items by count, and prints the total,
  the most common bigrams and the bigrams needed to exceed 10 percent of the total.

  Python integers are unbounded (\<open>int\<close>); strings are byte strings (\<open>string\<close>); an
  exception is a value of \<open>error\<close>. What the script has printed when an exception ends
  it stays printed, so a run returns the printed lines together with the exception, if any.
\<close>

datatype error = IndexError | ValueError | OverflowError

subsection \<open>Reading the file: lines, tokens, integers\<close>

text \<open>
  \<open>for line in f\<close>: the file's contents cut after every newline character; a last line
  without a newline is a line too.
\<close>

fun readlines_from :: "string \<Rightarrow> string \<Rightarrow> string list" where
  "readlines_from cur [] = (if cur = [] then [] else [cur])"
| "readlines_from cur (c # cs) =
     (if c = CHR 0x0A then (cur @ [c]) # readlines_from [] cs
      else readlines_from (cur @ [c]) cs)"

definition readlines :: "string \<Rightarrow> string list" where
  "readlines s = readlines_from [] s"

text \<open>
  \<open>line.split()\<close>: the maximal runs of characters that are not whitespace. For a Python 2
  byte string the whitespace characters are tab, newline, vertical tab, form feed,
  carriage return and space.
\<close>

definition isspace :: "char \<Rightarrow> bool" where
  "isspace c = (c \<in> set [CHR 0x09, CHR 0x0A, CHR 0x0B, CHR 0x0C, CHR 0x0D, CHR 0x20])"

fun split_from :: "string \<Rightarrow> string \<Rightarrow> string list" where
  "split_from cur [] = (if cur = [] then [] else [cur])"
| "split_from cur (c # cs) =
     (if isspace c then (if cur = [] then split_from [] cs else cur # split_from [] cs)
      else split_from (cur @ [c]) cs)"

definition str_split :: "string \<Rightarrow> string list" where
  "str_split s = split_from [] s"

text \<open>
  \<open>int(tok)\<close> on a token without whitespace: an optional sign, then one or more decimal
  digits; anything else raises ValueError (\<open>None\<close> here).
\<close>

definition isdigit :: "char \<Rightarrow> bool" where
  "isdigit c = (48 \<le> (of_char c :: nat) \<and> (of_char c :: nat) \<le> 57)"

definition digits_value :: "string \<Rightarrow> int" where
  "digits_value ds = foldl (\<lambda>a c. 10 * a + (int (of_char c) - 48)) 0 ds"

definition unsigned_int :: "string \<Rightarrow> int option" where
  "unsigned_int ds = (if ds \<noteq> [] \<and> list_all isdigit ds then Some (digits_value ds) else None)"

fun py_int :: "string \<Rightarrow> int option" where
  "py_int [] = None"
| "py_int (c # cs) =
     (if c = CHR ''-'' then map_option uminus (unsigned_int cs)
      else if c = CHR ''+'' then unsigned_int cs
      else unsigned_int (c # cs))"

subsection \<open>The dictionary\<close>

text \<open>
  The dictionary \<open>data\<close> is kept as the list of its entries in the order in which their
  keys were first stored. Storing under a key that is present replaces the value where it
  is; storing under a new key adds an entry.
\<close>

type_synonym dict = "(string \<times> int) list"

fun dict_set :: "string \<Rightarrow> int \<Rightarrow> dict \<Rightarrow> dict" where
  "dict_set k v [] = [(k, v)]"
| "dict_set k v ((k', v') # d) = (if k' = k then (k, v) # d else (k', v') # dict_set k v d)"

text \<open>
  One turn of the reading loop,
  \<open>line = line.split(); data[line[0] + " " + line[1]] = int(line[2])\<close>.
  Python evaluates the right-hand side first: with fewer than three tokens \<open>line[2]\<close>
  raises IndexError, and a third token that is no integer raises ValueError.
\<close>

definition load_line :: "dict \<Rightarrow> string \<Rightarrow> error + dict" where
  "load_line data raw =
     (let line = str_split raw in
      if length line < 3 then Inl IndexError
      else case py_int (line ! 2) of
             None \<Rightarrow> Inl ValueError
           | Some n \<Rightarrow> Inr (dict_set (line ! 0 @ '' '' @ line ! 1) n data))"

fun load_from :: "dict \<Rightarrow> string list \<Rightarrow> error + dict" where
  "load_from data [] = Inr data"
| "load_from data (raw # lns) =
     (case load_line data raw of
        Inl e \<Rightarrow> Inl e
      | Inr data' \<Rightarrow> load_from data' lns)"

definition load :: "string list \<Rightarrow> error + dict" where
  "load lns = load_from [] lns"

subsection \<open>Ranking\<close>

text \<open>
  \<open>sorted_data = list(reversed(sorted(data.items(), key=operator.itemgetter(1))))\<close>.
  The order in which a Python 2 dictionary hands out its items is fixed by the interpreter
  (the hash of the keys), not by the script: it is the parameter \<open>items\<close>, of which only
  \<open>mset (items data) = mset data\<close> is ever assumed. \<open>sorted\<close> is stable, as
  \<open>sort_key\<close> is.
\<close>

definition sorted_data :: "(dict \<Rightarrow> dict) \<Rightarrow> dict \<Rightarrow> dict" where
  "sorted_data items data = rev (sort_key snd (items data))"

text \<open>The summation loop \<open>num += sorted_data[i][1]\<close>.\<close>

definition num_of :: "dict \<Rightarrow> int" where
  "num_of sd = foldl (\<lambda>num e. num + snd e) 0 sd"

text \<open>
  \<open>max_num = sorted_data[0][1]\<close>, which raises IndexError on an empty list, and the loop
  that prints every key whose count is \<open>max_num\<close>.
\<close>

definition most_common :: "dict \<Rightarrow> error + string list" where
  "most_common sd =
     (case sd of
        [] \<Rightarrow> Inl IndexError
      | e0 # _ \<Rightarrow> Inr (map fst (filter (\<lambda>e. snd e = snd e0) sd)))"

subsection \<open>Floating point\<close>

text \<open>
  \<open>total = num * 0.1\<close> and \<open>total -= sorted_data[i][1]\<close> are computed in IEEE 754
  binary64, rounding to nearest, ties to even. A finite double is the rational number it
  stands for; the two infinities can arise from a subtraction that overflows. The sign of
  a zero has no effect on a subtraction's or a comparison's result here, so zero is the
  rational 0.
\<close>

datatype pyfloat = Fin rat | PInf | MInf

text \<open>For \<open>x > 0\<close>, the exponent \<open>e\<close> with \<open>2^e \<le> x < 2^(e+1)\<close>
  (\<open>2 powi e\<close> is the power of two with an integer exponent).\<close>

definition ilog2 :: "rat \<Rightarrow> int" where
  "ilog2 x =
     (let (p, q) = quotient_of x; e = bitlen p - bitlen q
      in if 2 powi e \<le> x then e else e - 1)"

definition round_half_even :: "rat \<Rightarrow> int" where
  "round_half_even x =
     (let f = \<lfloor>x\<rfloor>; d = x - of_int f
      in if d < 1 / 2 then f else if 1 / 2 < d then f + 1 else if even f then f else f + 1)"

text \<open>
  Rounding a rational to binary64: 53 significant bits, least exponent -1022 (below it
  the spacing stays \<open>2^-1074\<close>), overflow to an infinity from \<open>2^1024\<close> on.
\<close>

definition round_double :: "rat \<Rightarrow> pyfloat" where
  "round_double x =
     (if x = 0 then Fin 0
      else let e = max (ilog2 \<bar>x\<bar>) (- 1022);
               q = 2 powi (e - 52);
               y = of_int (round_half_even (x / q)) * q
           in if 2 ^ 1024 \<le> \<bar>y\<bar> then (if 0 < x then PInf else MInf) else Fin y)"

text \<open>
  An integer operand of a float operation is converted first; Python raises
  OverflowError where the conversion would give an infinity.
\<close>

definition float_of_int :: "int \<Rightarrow> error + rat" where
  "float_of_int n =
     (case round_double (of_int n) of
        Fin y \<Rightarrow> Inr y
      | _ \<Rightarrow> Inl OverflowError)"

text \<open>The literal \<open>0.1\<close>: the double nearest to one tenth.\<close>

definition tenth :: rat where
  "tenth = 3602879701896397 / 36028797018963968"

definition fmul :: "rat \<Rightarrow> rat \<Rightarrow> pyfloat" where
  "fmul a b = round_double (a * b)"

fun fsub :: "pyfloat \<Rightarrow> rat \<Rightarrow> pyfloat" where
  "fsub (Fin a) b = round_double (a - b)"
| "fsub PInf b = PInf"
| "fsub MInf b = MInf"

fun negative :: "pyfloat \<Rightarrow> bool" where
  "negative (Fin a) = (a < 0)"
| "negative PInf = False"
| "negative MInf = True"

subsection \<open>The report\<close>

text \<open>
  The last loop: print the key, subtract the count from \<open>total\<close>, stop once \<open>total\<close> is
  negative. The result is what was printed, and the exception if one ended the loop.
\<close>

fun top_loop :: "pyfloat \<Rightarrow> dict \<Rightarrow> string list \<times> error option" where
  "top_loop t [] = ([], None)"
| "top_loop t (e # es) =
     (case float_of_int (snd e) of
        Inl err \<Rightarrow> ([fst e], Some err)
      | Inr c \<Rightarrow>
          (let t' = fsub t c
           in if negative t' then ([fst e], None)
              else (case top_loop t' es of (out, r) \<Rightarrow> (fst e # out, r))))"

text \<open>\<open>total = num * 0.1\<close> followed by the loop.\<close>

definition top_tenth :: "dict \<Rightarrow> string list \<times> error option" where
  "top_tenth sd =
     (case float_of_int (num_of sd) of
        Inl err \<Rightarrow> ([], Some err)
      | Inr f \<Rightarrow> top_loop (fmul f tenth) sd)"

text \<open>\<open>str\<close> of an integer, as \<open>print\<close> writes it.\<close>

fun str_nat :: "nat \<Rightarrow> string" where
  "str_nat n =
     (if n < 10 then [''0123456789'' ! n]
      else str_nat (n div 10) @ [''0123456789'' ! (n mod 10)])"

declare str_nat.simps [simp del]

definition str_int :: "int \<Rightarrow> string" where
  "str_int n = (if n < 0 then CHR ''-'' # str_nat (nat (- n)) else str_nat (nat n))"

text \<open>Everything after the reading loop, from the dictionary to the printed lines.\<close>

definition report :: "dict \<Rightarrow> string list \<times> error option" where
  "report sd =
     (let out1 = [''the total number of bigrams:  '' @ str_int (num_of sd),
                  ''the most common bigram: '']
      in case most_common sd of
           Inl err \<Rightarrow> (out1, Some err)
         | Inr keys \<Rightarrow>
             (let out2 = out1 @ keys
                    @ [''the number of bigrams required to add up to 10% of all bigrams'']
              in case top_tenth sd of (out3, r) \<Rightarrow> (out2 @ out3, r)))"

text \<open>The whole script, on the lines of the file.\<close>

definition run :: "(dict \<Rightarrow> dict) \<Rightarrow> string list \<Rightarrow> string list \<times> error option" where
  "run items lns =
     (case load lns of
        Inl err \<Rightarrow> ([], Some err)
      | Inr data \<Rightarrow> report (sorted_data items data))"

definition main :: "(dict \<Rightarrow> dict) \<Rightarrow> string \<Rightarrow> string list \<times> error option" where
  "main items contents = run items (readlines contents)"

subsection \<open>Notions of the specification\<close>

text \<open>
  A line is malformed when it has fewer than three tokens or its third token is no integer;
  \<open>line_error\<close> is the exception such a line raises. A well-formed line stands for the
  record \<open>record_of\<close>: its bigram key and its count.
\<close>

definition malformed :: "string \<Rightarrow> bool" where
  "malformed raw = (length (str_split raw) < 3 \<or> py_int (str_split raw ! 2) = None)"

definition line_error :: "string \<Rightarrow> error" where
  "line_error raw = (if length (str_split raw) < 3 then IndexError else ValueError)"

definition record_of :: "string \<Rightarrow> string \<times> int" where
  "record_of raw =
     (let line = str_split raw
      in (line ! 0 @ '' '' @ line ! 1, case py_int (line ! 2) of Some n \<Rightarrow> n | None \<Rightarrow> 0))"

fun last_write :: "(string \<times> int) list \<Rightarrow> string \<Rightarrow> int option" where
  "last_write [] k = None"
| "last_write (r # rs) k =
     (case last_write rs k of
        Some v \<Rightarrow> Some v
      | None \<Rightarrow> if fst r = k then Some (snd r) else None)"

text \<open>
  The shortest prefix whose counts add up to more than a tenth of \<open>N\<close>, in integer
  arithmetic: \<open>S\<close> is the sum of the counts passed so far.
\<close>

fun exceed_loop :: "int \<Rightarrow> int \<Rightarrow> dict \<Rightarrow> string list" where
  "exceed_loop N S [] = []"
| "exceed_loop N S (e # es) =
     fst e # (if N < 10 * (S + snd e) then [] else exceed_loop N (S + snd e) es)"

text \<open>Ten bigrams of count 1, in ranked order.\<close>

definition ten_ones :: dict where
  "ten_ones = [(''a b'', 1), (''b c'', 1), (''c d'', 1), (''d e'', 1), (''e f'', 1),
               (''f g'', 1), (''g h'', 1), (''h i'', 1), (''i j'', 1), (''j k'', 1)]"

section \<open>The dictionary and the reading loop\<close>

text \<open>The tokens of a line are not empty and hold no whitespace.\<close>

lemma split_from_tokens:
  assumes "\<forall>c\<in>set cur. \<not> isspace c" and "tok \<in> set (split_from cur cs)"
  shows "tok \<noteq> [] \<and> (\<forall>c\<in>set tok. \<not> isspace c)"
  using assms
proof (induction cs arbitrary: cur)
  case Nil
  then show ?case by (auto split: if_splits)
next
  case (Cons c cs)
  show ?case
  proof (cases "isspace c")
    case True
    with Cons.prems(2) have "tok = cur \<and> cur \<noteq> [] \<or> tok \<in> set (split_from [] cs)"
      by (auto split: if_splits)
    then show ?thesis
    proof
      assume "tok = cur \<and> cur \<noteq> []"
      with Cons.prems(1) show ?thesis by simp
    next
      assume "tok \<in> set (split_from [] cs)"
      with Cons.IH [of "[]"] show ?thesis by simp
    qed
  next
    case False
    with Cons.prems(2) have "tok \<in> set (split_from (cur @ [c]) cs)" by simp
    moreover have "\<forall>c'\<in>set (cur @ [c]). \<not> isspace c'" using Cons.prems(1) False by simp
    ultimately show ?thesis using Cons.IH [of "cur @ [c]"] by blast
  qed
qed

lemma str_split_tokens:
  "tok \<in> set (str_split s) \<Longrightarrow> tok \<noteq> [] \<and> (\<forall>c\<in>set tok. \<not> isspace c)"
  unfolding str_split_def by (rule split_from_tokens [of "[]"]) simp_all

lemma map_of_dict_set: "map_of (dict_set k v d) = (map_of d)(k \<mapsto> v)"
  by (induction d) (auto simp: fun_eq_iff)

lemma keys_dict_set: "fst ` set (dict_set k v d) = insert k (fst ` set d)"
proof -
  have "fst ` set (dict_set k v d) = dom (map_of (dict_set k v d))"
    by (simp only: dom_map_of_conv_image_fst)
  also have "\<dots> = insert k (dom (map_of d))"
    by (simp only: map_of_dict_set dom_fun_upd) simp
  finally show ?thesis by (simp only: dom_map_of_conv_image_fst)
qed

lemma distinct_dict_set: "distinct (map fst d) \<Longrightarrow> distinct (map fst (dict_set k v d))"
proof (induction d)
  case Nil
  show ?case by simp
next
  case (Cons a d)
  obtain k' v' where a: "a = (k', v')" by (cases a)
  show ?case
  proof (cases "k' = k")
    case True
    with Cons.prems a show ?thesis by simp
  next
    case False
    have "k' \<notin> set (map fst (dict_set k v d))"
      using Cons.prems a False by (simp add: keys_dict_set)
    with Cons a False show ?thesis by simp
  qed
qed

lemma num_of_sum: "num_of sd = sum_list (map snd sd)"
proof -
  have "foldl (\<lambda>num e. num + snd e) a sd = a + sum_list (map snd sd)" for a
    by (induction sd arbitrary: a) simp_all
  then show ?thesis by (simp add: num_of_def)
qed

lemma mset_sorted_data: "mset (items data) = mset data \<Longrightarrow> mset (sorted_data items data) = mset data"
  by (simp add: sorted_data_def)

lemma sorted_wrt_rev_key: "sorted (map f xs) \<Longrightarrow> sorted_wrt (\<lambda>a b. f b \<le> f a) (rev xs)"
  by (induction xs) (auto simp: sorted_wrt_append)

lemma sorted_sorted_data: "sorted_wrt (\<lambda>a b. snd b \<le> snd a) (sorted_data items data)"
  unfolding sorted_data_def by (rule sorted_wrt_rev_key) (rule sorted_sort_key)

lemma sum_sorted_data:
  assumes "mset (items data) = mset data"
  shows "sum_list (map snd (sorted_data items data)) = sum_list (map snd data)"
proof -
  have "mset (sorted_data items data) = mset data"
    using assms by (rule mset_sorted_data)
  then have "mset (map snd (sorted_data items data)) = mset (map snd data)"
    by simp
  then show ?thesis by (metis sum_mset_sum_list)
qed

lemma load_line_ok:
  "\<not> malformed raw \<Longrightarrow> load_line d raw = Inr (dict_set (fst (record_of raw)) (snd (record_of raw)) d)"
  by (auto simp: malformed_def load_line_def record_of_def Let_def)

lemma load_line_bad: "malformed raw \<Longrightarrow> load_line d raw = Inl (line_error raw)"
  by (auto simp: malformed_def load_line_def line_error_def Let_def)

lemma load_from_bad:
  "\<forall>r\<in>set pre. \<not> malformed r \<Longrightarrow> malformed raw \<Longrightarrow>
   load_from d (pre @ raw # post) = Inl (line_error raw)"
  by (induction pre arbitrary: d) (simp_all add: load_line_ok load_line_bad)

lemma load_from_Inl_iff: "(\<exists>e. load_from d lns = Inl e) \<longleftrightarrow> (\<exists>raw\<in>set lns. malformed raw)"
proof (induction lns arbitrary: d)
  case Nil
  show ?case by simp
next
  case (Cons raw lns)
  show ?case
  proof (cases "malformed raw")
    case True
    then show ?thesis by (simp add: load_line_bad)
  next
    case False
    then show ?thesis using Cons.IH by (simp add: load_line_ok)
  qed
qed

lemma load_from_Inr:
  "load_from d lns = Inr d' \<Longrightarrow>
   map_of d' k = (case last_write (map record_of lns) k of Some v \<Rightarrow> Some v | None \<Rightarrow> map_of d k)"
proof (induction lns arbitrary: d)
  case Nil
  then show ?case by simp
next
  case (Cons raw lns)
  show ?case
  proof (cases "malformed raw")
    case True
    with Cons.prems show ?thesis by (simp add: load_line_bad)
  next
    case False
    let ?d1 = "dict_set (fst (record_of raw)) (snd (record_of raw)) d"
    from False Cons.prems have "load_from ?d1 lns = Inr d'"
      by (simp add: load_line_ok)
    from Cons.IH [OF this] show ?thesis
      by (simp add: map_of_dict_set split: option.splits)
  qed
qed

lemma load_from_distinct:
  "load_from d lns = Inr d' \<Longrightarrow> distinct (map fst d) \<Longrightarrow> distinct (map fst d')"
proof (induction lns arbitrary: d)
  case Nil
  then show ?case by simp
next
  case (Cons raw lns)
  show ?case
  proof (cases "malformed raw")
    case True
    with Cons.prems show ?thesis by (simp add: load_line_bad)
  next
    case False
    let ?d1 = "dict_set (fst (record_of raw)) (snd (record_of raw)) d"
    from False Cons.prems have "load_from ?d1 lns = Inr d'"
      by (simp add: load_line_ok)
    moreover have "distinct (map fst ?d1)"
      using Cons.prems(2) by (rule distinct_dict_set)
    ultimately show ?thesis by (rule Cons.IH)
  qed
qed

lemma sum_unique_keys:
  assumes "distinct (map fst d)"
  shows "(\<Sum>k\<in>dom (map_of d). the (map_of d k)) = sum_list (map snd d)"
proof -
  have eq: "map (\<lambda>k. the (map_of d k)) (map fst d) = map snd d"
    using assms by (auto simp: map_of_eq_Some_iff)
  have "sum_list (map snd d) = sum_list (map (\<lambda>k. the (map_of d k)) (map fst d))"
    by (simp only: eq)
  also have "\<dots> = (\<Sum>k\<in>set (map fst d). the (map_of d k))"
    using assms by (rule sum_list_distinct_conv_sum_set)
  finally show ?thesis by (simp add: dom_map_of_conv_image_fst)
qed

lemma sorted_desc_Max:
  assumes "sorted_wrt (\<lambda>a b. snd b \<le> snd a) (e0 # es)"
  shows "Max (snd ` set (e0 # es)) = snd (e0 :: string \<times> int)"
proof (rule Max_eqI)
  show "finite (snd ` set (e0 # es))" by simp
  show "snd e0 \<in> snd ` set (e0 # es)" by simp
  fix y assume "y \<in> snd ` set (e0 # es)"
  with assms show "y \<le> snd e0" by auto
qed


section \<open>Rounding to binary64\<close>

lemma p2_less_iff: "(2::rat) powi m < 2 powi n \<longleftrightarrow> m < n"
proof
  assume "(2::rat) powi m < 2 powi n"
  show "m < n"
  proof (rule ccontr)
    assume "\<not> m < n"
    then have "n \<le> m" by simp
    then have "(2::rat) powi n \<le> 2 powi m" by (rule power_int_increasing) simp
    with \<open>(2::rat) powi m < 2 powi n\<close> show False by simp
  qed
next
  assume "m < n"
  then show "(2::rat) powi m < 2 powi n" by (rule power_int_strict_increasing) simp
qed

lemma p2_le_iff: "(2::rat) powi m \<le> 2 powi n \<longleftrightarrow> m \<le> n"
  using p2_less_iff [of n m] by (simp add: not_less [symmetric])

lemma p2_pos: "0 < (2::rat) powi n"
  by simp

lemma p2_add: "(2::rat) powi (m + n) = 2 powi m * 2 powi n"
  by (simp add: power_int_add)

lemma p2_diff: "(2::rat) powi (m - n) = 2 powi m / 2 powi n"
  by (simp add: power_int_diff)

lemma p2_nat: "0 \<le> n \<Longrightarrow> (2::rat) powi n = of_int (2 ^ nat n)"
  by (simp add: power_int_nonneg_exp)

lemma bitlen_p2:
  assumes "0 < p"
  shows "2 powi (bitlen p - 1) \<le> (of_int p :: rat)" and "(of_int p :: rat) < 2 powi (bitlen p)"
proof -
  have b1: "1 \<le> bitlen p"
    using assms bitlen_eq_zero_iff [of p] bitlen_nonneg [of p] by simp
  from bitlen_bounds [OF assms]
  have lo: "2 ^ nat (bitlen p - 1) \<le> p" and hi: "p < 2 ^ nat (bitlen p)" by simp_all
  have "(2::rat) powi (bitlen p - 1) = of_int (2 ^ nat (bitlen p - 1))"
    using b1 by (intro p2_nat) simp
  also have "\<dots> \<le> of_int p" using lo by (simp only: of_int_le_iff)
  finally show "2 powi (bitlen p - 1) \<le> (of_int p :: rat)" .
  have "(of_int p :: rat) < of_int (2 ^ nat (bitlen p))" using hi by (simp only: of_int_less_iff)
  also have "\<dots> = 2 powi (bitlen p)"
    using b1 by (intro p2_nat [symmetric]) simp
  finally show "(of_int p :: rat) < 2 powi (bitlen p)" .
qed

lemma ilog2_bounds:
  assumes "0 < x"
  shows "2 powi (ilog2 x) \<le> x" and "x < 2 powi (ilog2 x + 1)"
proof -
  obtain p q where pq: "quotient_of x = (p, q)" by (cases "quotient_of x")
  have q: "0 < q" using pq by (rule quotient_of_denom_pos)
  have x: "x = of_int p / of_int q" using pq by (rule quotient_of_div)
  have p: "0 < p" using assms q x by (simp add: zero_less_divide_iff)
  define a where "a = bitlen p"
  define b where "b = bitlen q"
  have pa: "2 powi (a - 1) \<le> (of_int p :: rat)" "(of_int p :: rat) < 2 powi a"
    unfolding a_def using bitlen_p2 [OF p] by simp_all
  have qb: "2 powi (b - 1) \<le> (of_int q :: rat)" "(of_int q :: rat) < 2 powi b"
    unfolding b_def using bitlen_p2 [OF q] by simp_all
  have "(2::rat) powi (a - b - 1) = 2 powi (a - 1) / 2 powi b"
    by (simp add: p2_diff [symmetric] algebra_simps)
  also have "\<dots> < of_int p / of_int q"
    using pa(1) qb(2) q by (intro frac_less2) simp_all
  finally have lo: "2 powi (a - b - 1) < x" by (simp add: x)
  have "of_int p / of_int q < (2::rat) powi a / 2 powi (b - 1)"
    using pa(2) qb(1) p by (intro frac_less) simp_all
  also have "\<dots> = 2 powi (a - b + 1)"
    by (simp add: p2_diff [symmetric] algebra_simps)
  finally have hi: "x < 2 powi (a - b + 1)" by (simp add: x)
  have il: "ilog2 x = (if 2 powi (a - b) \<le> x then a - b else a - b - 1)"
    by (simp add: ilog2_def pq a_def b_def)
  show "2 powi (ilog2 x) \<le> x" using lo by (simp add: il)
  show "x < 2 powi (ilog2 x + 1)" using hi by (simp add: il not_le)
qed

lemma ilog2_unique:
  assumes "2 powi e \<le> x" and "x < 2 powi (e + 1)"
  shows "ilog2 x = e"
proof -
  have x: "0 < x" using p2_pos assms(1) by (rule less_le_trans)
  have "(2::rat) powi (ilog2 x) < 2 powi (e + 1)"
    using ilog2_bounds(1) [OF x] assms(2) by simp
  then have 1: "ilog2 x < e + 1" by (simp only: p2_less_iff)
  have "(2::rat) powi e < 2 powi (ilog2 x + 1)"
    using ilog2_bounds(2) [OF x] assms(1) by simp
  then have 2: "e < ilog2 x + 1" by (simp only: p2_less_iff)
  from 1 2 show ?thesis by simp
qed

lemma ilog2_le: "0 < x \<Longrightarrow> x < 2 powi n \<Longrightarrow> ilog2 x < n"
proof -
  assume x: "0 < x" and "x < 2 powi n"
  with ilog2_bounds(1) [OF x] have "(2::rat) powi (ilog2 x) < 2 powi n" by simp
  then show ?thesis by (simp only: p2_less_iff)
qed

lemma ilog2_ge: "0 < x \<Longrightarrow> 2 powi n \<le> x \<Longrightarrow> n \<le> ilog2 x"
proof -
  assume x: "0 < x" and "2 powi n \<le> x"
  with ilog2_bounds(2) [OF x] have "(2::rat) powi n < 2 powi (ilog2 x + 1)" by simp
  then have "n < ilog2 x + 1" by (simp only: p2_less_iff)
  then show ?thesis by simp
qed

lemma round_half_even_of_int: "round_half_even (of_int z) = z"
  by (simp add: round_half_even_def)

lemma round_half_even_ge: "of_int z \<le> x \<Longrightarrow> z \<le> round_half_even x"
proof -
  assume "of_int z \<le> x"
  then have "z \<le> \<lfloor>x\<rfloor>" by (simp add: le_floor_iff)
  then show ?thesis by (simp add: round_half_even_def Let_def)
qed

lemma round_half_even_le: "x \<le> of_int z \<Longrightarrow> round_half_even x \<le> z"
proof -
  assume xz: "x \<le> of_int z"
  then have f: "\<lfloor>x\<rfloor> \<le> z" by (simp add: floor_le_iff)
  show ?thesis
  proof (cases "x = of_int \<lfloor>x\<rfloor>")
    case True
    then have "x - of_int \<lfloor>x\<rfloor> < 1 / 2" by simp
    with f show ?thesis by (simp add: round_half_even_def Let_def)
  next
    case False
    then have "of_int \<lfloor>x\<rfloor> < x" using of_int_floor_le [of x] by linarith
    with xz have "(of_int \<lfloor>x\<rfloor> :: rat) < of_int z" by simp
    then have "\<lfloor>x\<rfloor> < z" by (simp only: of_int_less_iff)
    then show ?thesis by (simp add: round_half_even_def Let_def)
  qed
qed

lemma round_double_unfold:
  assumes "x \<noteq> 0"
  shows "round_double x =
    (let y = of_int (round_half_even (x / 2 powi (max (ilog2 \<bar>x\<bar>) (- 1022) - 52)))
               * 2 powi (max (ilog2 \<bar>x\<bar>) (- 1022) - 52)
     in if 2 ^ 1024 \<le> \<bar>y\<bar> then (if 0 < x then PInf else MInf) else Fin y)"
  using assms by (simp add: round_double_def Let_def)

lemma round_double_exact:
  assumes j: "\<bar>j\<bar> < 2 ^ 53" and k: "- 1074 \<le> k" "k \<le> 970"
  shows "round_double (of_int j * 2 powi k) = Fin (of_int j * 2 powi k)"
proof (cases "j = 0")
  case True
  then show ?thesis by (simp add: round_double_def)
next
  case False
  define x :: rat where "x = of_int j * 2 powi k"
  have x0: "x \<noteq> 0" using False by (simp add: x_def)
  have ax: "\<bar>x\<bar> = of_int \<bar>j\<bar> * 2 powi k" by (simp add: x_def abs_mult)
  have "(of_int \<bar>j\<bar> :: rat) < of_int (2 ^ 53)" using j by (simp only: of_int_less_iff)
  then have "(of_int \<bar>j\<bar> :: rat) < 2 powi 53" by simp
  then have "\<bar>x\<bar> < 2 powi 53 * 2 powi k" unfolding ax by (intro mult_strict_right_mono) simp_all
  then have hi: "\<bar>x\<bar> < 2 powi (k + 53)" by (simp add: p2_add mult.commute)
  define e where "e = max (ilog2 \<bar>x\<bar>) (- 1022)"
  have "ilog2 \<bar>x\<bar> < k + 53" using x0 hi by (intro ilog2_le) simp_all
  with k have e: "e - 52 \<le> k" by (simp add: e_def)
  define n where "n = nat (k - (e - 52))"
  have kn: "k = (e - 52) + int n" using e by (simp add: n_def)
  have "(2::rat) powi k = 2 powi (e - 52) * 2 powi (int n)" by (subst kn) (rule p2_add)
  then have pk: "(2::rat) powi k = 2 powi (e - 52) * of_int (2 ^ n)" by simp
  have "x / 2 powi (e - 52) = of_int j * of_int (2 ^ n)"
    by (simp add: x_def pk)
  then have xq: "x / 2 powi (e - 52) = of_int (j * 2 ^ n)" by simp
  have y: "of_int (round_half_even (x / 2 powi (e - 52))) * 2 powi (e - 52) = x"
    unfolding xq round_half_even_of_int by (simp add: x_def pk)
  have "k + 53 \<le> 1024" using k by simp
  then have "(2::rat) powi (k + 53) \<le> 2 powi 1024" by (rule power_int_increasing) simp
  with hi have "\<bar>x\<bar> < 2 powi 1024" by (rule less_le_trans)
  then have nov: "\<not> 2 ^ 1024 \<le> \<bar>x\<bar>" by simp
  have "round_double x = Fin x"
    unfolding round_double_unfold [OF x0] e_def [symmetric] y Let_def using nov by simp
  then show ?thesis by (simp only: x_def)
qed

lemma float_of_int_exact: "\<bar>n\<bar> < 2 ^ 53 \<Longrightarrow> float_of_int n = Inr (of_int n)"
  using round_double_exact [of n 0] by (simp add: float_of_int_def)

lemma round_double_nonneg: "0 \<le> x \<Longrightarrow> \<not> negative (round_double x)"
proof (cases "x = 0")
  case True
  then show ?thesis by (simp add: round_double_def)
next
  case False
  assume "0 \<le> x"
  with False have x: "0 < x" by simp
  define q :: rat where "q = 2 powi (max (ilog2 \<bar>x\<bar>) (- 1022) - 52)"
  have q: "0 < q" by (simp add: q_def)
  have "of_int 0 \<le> x / q" using x q by simp
  then have "0 \<le> round_half_even (x / q)" by (rule round_half_even_ge)
  then have "0 \<le> (of_int (round_half_even (x / q)) :: rat) * q" using q by simp
  then show ?thesis
    unfolding round_double_unfold [OF False] q_def [symmetric] Let_def using x
    by (simp add: not_less)
qed

lemma round_double_neg:
  assumes "x < 0" and "2 powi (- 1022) \<le> \<bar>x\<bar>"
  shows "negative (round_double x)"
proof -
  have x0: "x \<noteq> 0" using assms(1) by simp
  have ax: "0 < \<bar>x\<bar>" using assms(1) by simp
  define l where "l = ilog2 \<bar>x\<bar>"
  have l: "- 1022 \<le> l" unfolding l_def using ax assms(2) by (rule ilog2_ge)
  then have e: "max (ilog2 \<bar>x\<bar>) (- 1022) = l" by (simp add: l_def)
  define q :: rat where "q = 2 powi (l - 52)"
  have q: "0 < q" by (simp add: q_def)
  have "2 powi l \<le> \<bar>x\<bar>" unfolding l_def using ax by (rule ilog2_bounds)
  then have "2 powi l / q \<le> \<bar>x\<bar> / q" using q by (simp add: divide_right_mono)
  moreover have "2 powi l / q = 2 powi 52" unfolding q_def by (simp add: p2_diff [symmetric])
  ultimately have "2 powi 52 \<le> - x / q" using assms(1) by simp
  then have "x / q \<le> of_int (- (2 ^ 52))" by simp
  then have "round_half_even (x / q) \<le> - (2 ^ 52)" by (rule round_half_even_le)
  then have "round_half_even (x / q) < 0" by simp
  then have "(of_int (round_half_even (x / q)) :: rat) * q < 0"
    using q by (simp add: mult_less_0_iff)
  then show ?thesis
    unfolding round_double_unfold [OF x0] e q_def [symmetric] Let_def using assms(1)
    by simp
qed

lemma round_double_exact_le:
  assumes j: "\<bar>j\<bar> \<le> 2 ^ 53" and k: "- 1074 \<le> k" "k \<le> 969"
  shows "round_double (of_int j * 2 powi k) = Fin (of_int j * 2 powi k)"
proof (cases "\<bar>j\<bar> < 2 ^ 53")
  case True
  then show ?thesis using k by (intro round_double_exact) simp_all
next
  case False
  with j have "\<bar>j\<bar> = 2 ^ 53" by simp
  then obtain s :: int where s: "\<bar>s\<bar> = 1" and js: "j = s * 2 ^ 53"
    by (cases "0 \<le> j") (auto intro: that [of 1] that [of "- 1"])
  have "(of_int j :: rat) * 2 powi k = of_int (s * 2 ^ 52) * (2 powi 1 * 2 powi k)"
    by (simp add: js)
  also have "\<dots> = of_int (s * 2 ^ 52) * 2 powi (k + 1)"
    by (simp only: p2_add [symmetric] add.commute)
  finally have eq: "(of_int j :: rat) * 2 powi k = of_int (s * 2 ^ 52) * 2 powi (k + 1)" .
  have "\<bar>s * 2 ^ 52\<bar> < (2 :: int) ^ 53" using s by (simp add: abs_mult)
  then have "round_double (of_int (s * 2 ^ 52) * 2 powi (k + 1)) = Fin (of_int (s * 2 ^ 52) * 2 powi (k + 1))"
    using k by (intro round_double_exact) simp_all
  then show ?thesis by (simp only: eq)
qed

text \<open>
  A positive rational below \<open>2^47\<close> rounds to a grid point \<open>z * 2^k\<close> with \<open>k \<le> -6\<close>,
  and rounding does not cross a multiple of \<open>1/32\<close>.
\<close>

lemma round_double_grid:
  assumes x: "0 < x" and hi: "x < 2 powi 47"
  shows "\<exists>z k. round_double x = Fin (of_int z * 2 powi k) \<and> 0 \<le> z \<and> z \<le> 2 ^ 53
               \<and> - 1074 \<le> k \<and> k \<le> - 6
               \<and> (\<forall>m. of_int m / 32 \<le> x \<longrightarrow> (of_int m :: rat) / 32 \<le> of_int z * 2 powi k)
               \<and> (\<forall>m. x \<le> of_int m / 32 \<longrightarrow> of_int z * 2 powi k \<le> (of_int m :: rat) / 32)"
proof -
  have x0: "x \<noteq> 0" and ax: "\<bar>x\<bar> = x" using x by simp_all
  define e where "e = max (ilog2 x) (- 1022)"
  have l: "ilog2 x < 47" using x hi by (rule ilog2_le)
  have e: "- 1022 \<le> e" "e \<le> 46" "ilog2 x \<le> e" using l by (simp_all add: e_def)
  define k where "k = e - 52"
  have k: "- 1074 \<le> k" "k \<le> - 6" using e by (simp_all add: k_def)
  define q :: rat where "q = 2 powi k"
  have q: "0 < q" by (simp add: q_def)
  define z where "z = round_half_even (x / q)"
  have "of_int 0 \<le> x / q" using x q by simp
  then have z0: "0 \<le> z" unfolding z_def by (rule round_half_even_ge)
  have e1: "e + 1 = 53 + k" by (simp add: k_def)
  have "x < 2 powi (ilog2 x + 1)" using x by (rule ilog2_bounds)
  also have "\<dots> \<le> 2 powi (e + 1)" using e(3) by (intro power_int_increasing) simp_all
  also have "\<dots> = 2 powi (53 + k)" by (simp only: e1)
  also have "\<dots> = 2 powi 53 * q" unfolding q_def by (rule p2_add)
  finally have "x / q < 2 powi 53" using q by (simp add: pos_divide_less_eq)
  then have "x / q \<le> of_int (2 ^ 53)" by simp
  then have z1: "z \<le> 2 ^ 53" unfolding z_def by (rule round_half_even_le)
  define n where "n = nat (- k - 5)"
  have qn: "q * (2 powi 5 * of_int (2 ^ n)) = 1"
  proof -
    have "(2::rat) powi k * (2 powi 5 * 2 powi (int n)) = 2 powi (k + (5 + int n))"
      by (simp only: p2_add)
    also have "k + (5 + int n) = 0" using k by (simp add: n_def)
    finally show ?thesis by (simp add: q_def)
  qed
  then have int_q: "of_int m / 32 / q = of_int (m * 2 ^ n)" for m
    using q by (simp add: field_simps)
  have low: "of_int m / 32 \<le> of_int z * q" if "of_int m / 32 \<le> x" for m
  proof -
    from that have "of_int m / 32 / q \<le> x / q" using q by (simp only: divide_right_mono)
    then have "of_int (m * 2 ^ n) \<le> x / q" by (simp only: int_q)
    then have "m * 2 ^ n \<le> z" unfolding z_def by (rule round_half_even_ge)
    then have "(of_int (m * 2 ^ n) :: rat) \<le> of_int z" by (simp only: of_int_le_iff)
    then have "of_int m / 32 / q \<le> of_int z" by (simp only: int_q)
    then show ?thesis using q by (simp only: pos_divide_le_eq)
  qed
  have up: "of_int z * q \<le> of_int m / 32" if "x \<le> of_int m / 32" for m
  proof -
    from that have "x / q \<le> of_int m / 32 / q" using q by (simp only: divide_right_mono)
    then have "x / q \<le> of_int (m * 2 ^ n)" by (simp only: int_q)
    then have "z \<le> m * 2 ^ n" unfolding z_def by (rule round_half_even_le)
    then have "(of_int z :: rat) \<le> of_int (m * 2 ^ n)" by (simp only: of_int_le_iff)
    then have "of_int z \<le> of_int m / 32 / q" by (simp only: int_q)
    then show ?thesis using q by (simp only: pos_le_divide_eq)
  qed
  have "(of_int z :: rat) \<le> of_int (2 ^ 53)" using z1 by (simp only: of_int_le_iff)
  then have "of_int z * q \<le> of_int (2 ^ 53) * q" using q by (simp only: mult_le_cancel_right_pos)
  also have "\<dots> = 2 powi (53 + k)" by (simp add: q_def p2_add)
  also have "\<dots> < 2 powi 1024" using k by (intro power_int_strict_increasing) simp_all
  finally have "of_int z * q < 2 powi 1024" .
  moreover have "0 \<le> of_int z * q" using z0 q by simp
  ultimately have nov: "\<not> 2 ^ 1024 \<le> \<bar>of_int z * q\<bar>" by simp
  have "round_double x = Fin (of_int z * q)"
    unfolding round_double_unfold [OF x0] ax e_def [symmetric] k_def [symmetric]
      q_def [symmetric] z_def [symmetric] Let_def
    using nov by simp
  with z0 z1 k low up show ?thesis unfolding q_def by blast
qed

text \<open>An integer below \<open>2^1023\<close> in absolute value is converted without an error.\<close>

lemma float_of_int_finite:
  assumes "\<bar>n\<bar> < 2 ^ 1023"
  shows "\<exists>y. float_of_int n = Inr y"
proof (cases "n = 0")
  case True
  then show ?thesis by (simp add: float_of_int_def round_double_def)
next
  case False
  define x :: rat where "x = of_int n"
  have x0: "x \<noteq> 0" using False by (simp add: x_def)
  have ax: "\<bar>x\<bar> = of_int \<bar>n\<bar>" by (simp add: x_def)
  have "1 \<le> \<bar>n\<bar>" using False by simp
  then have "(of_int 1 :: rat) \<le> of_int \<bar>n\<bar>" by (simp only: of_int_le_iff)
  then have one: "2 powi 0 \<le> \<bar>x\<bar>" by (simp add: ax)
  have pos: "0 < \<bar>x\<bar>" using x0 by simp
  have "(of_int \<bar>n\<bar> :: rat) < of_int (2 ^ 1023)" using assms by (simp only: of_int_less_iff)
  then have "\<bar>x\<bar> < 2 powi 1023" by (simp add: ax)
  with pos have l1: "ilog2 \<bar>x\<bar> < 1023" by (rule ilog2_le)
  from pos one have l0: "0 \<le> ilog2 \<bar>x\<bar>" by (rule ilog2_ge)
  define e where "e = max (ilog2 \<bar>x\<bar>) (- 1022)"
  have e: "e = ilog2 \<bar>x\<bar>" "e + 1 \<le> 1023" using l0 l1 by (simp_all add: e_def)
  define q :: rat where "q = 2 powi (e - 52)"
  have q: "0 < q" by (simp add: q_def)
  have e1: "e + 1 = 53 + (e - 52)" by simp
  have "2 powi (e + 1) = 2 powi 53 * q" unfolding q_def by (subst e1) (rule p2_add)
  then have pq: "2 powi (e + 1) = of_int (2 ^ 53) * q" by simp
  have "\<bar>x\<bar> < 2 powi (e + 1)" unfolding e(1) using pos by (rule ilog2_bounds)
  then have "\<bar>x\<bar> < of_int (2 ^ 53) * q" by (simp only: pq)
  then have "\<bar>x\<bar> / q < of_int (2 ^ 53)" using q by (simp only: pos_divide_less_eq)
  moreover have "\<bar>x / q\<bar> = \<bar>x\<bar> / q" using q by (simp only: abs_divide abs_of_pos)
  ultimately have b: "\<bar>x / q\<bar> < of_int (2 ^ 53)" by (simp only:)
  define z where "z = round_half_even (x / q)"
  have "x / q \<le> of_int (2 ^ 53)" using b by linarith
  then have z1: "z \<le> 2 ^ 53" unfolding z_def by (rule round_half_even_le)
  have "- (of_int (2 ^ 53) :: rat) \<le> x / q" using b by linarith
  then have "of_int (- (2 ^ 53)) \<le> x / q" by (simp only: of_int_minus)
  then have z2: "- (2 ^ 53) \<le> z" unfolding z_def by (rule round_half_even_ge)
  from z1 z2 have "\<bar>z\<bar> \<le> 2 ^ 53" by simp
  then have "(of_int \<bar>z\<bar> :: rat) \<le> of_int (2 ^ 53)" by (simp only: of_int_le_iff)
  then have "of_int \<bar>z\<bar> * q \<le> of_int (2 ^ 53) * q" using q by (simp only: mult_le_cancel_right_pos)
  also have "\<dots> = 2 powi (e + 1)" by (simp only: pq)
  also have "\<dots> \<le> 2 powi 1023" using e(2) by (rule power_int_increasing) simp
  also have "\<dots> < 2 powi 1024" by (rule power_int_strict_increasing) simp_all
  finally have "of_int \<bar>z\<bar> * q < 2 powi 1024" .
  moreover have "\<bar>of_int z * q\<bar> = of_int \<bar>z\<bar> * q" using q by (simp add: abs_mult)
  ultimately have nov: "\<not> 2 ^ 1024 \<le> \<bar>of_int z * q\<bar>" by simp
  have "round_double x = Fin (of_int z * q)"
    unfolding round_double_unfold [OF x0] e_def [symmetric] q_def [symmetric] z_def [symmetric] Let_def
    using nov by simp
  then show ?thesis by (simp add: float_of_int_def x_def)
qed

text \<open>The literal \<open>0.1\<close> is the double nearest to one tenth.\<close>

lemma tenth_nearest: "round_double (1 / 10) = Fin tenth"
proof -
  define x :: rat where "x = 1 / 10"
  have x0: "x \<noteq> 0" and ax: "\<bar>x\<bar> = x" by (simp_all add: x_def)
  have il: "ilog2 x = - 4" unfolding x_def by (rule ilog2_unique) simp_all
  have e: "max (ilog2 x) (- 1022) - 52 = - 56" by (simp add: il)
  have xq: "x / 2 powi (- 56) = 36028797018963968 / 5" by (simp add: x_def)
  have f: "\<lfloor>(36028797018963968 :: rat) / 5\<rfloor> = 7205759403792793"
    by (rule floor_unique) simp_all
  have r: "round_half_even (x / 2 powi (- 56)) = 7205759403792794"
    unfolding xq round_half_even_def f Let_def by simp
  have y: "of_int (round_half_even (x / 2 powi (- 56))) * 2 powi (- 56) = tenth"
    unfolding r by (simp add: tenth_def)
  have "round_double x = Fin tenth"
    unfolding round_double_unfold [OF x0] ax e y Let_def by (simp add: tenth_def)
  then show ?thesis by (simp only: x_def)
qed

text \<open>The threshold of a total of 10 is exactly 1.\<close>

lemma ten_tenths: "fmul 10 tenth = Fin 1"
proof -
  define x :: rat where "x = 10 * tenth"
  have x0: "x \<noteq> 0" and ax: "\<bar>x\<bar> = x" by (simp_all add: x_def tenth_def)
  have il: "ilog2 x = 0" unfolding x_def tenth_def by (rule ilog2_unique) simp_all
  have e: "max (ilog2 x) (- 1022) - 52 = - 52" by (simp add: il)
  have xq: "x / 2 powi (- 52) = 18014398509481985 / 4" by (simp add: x_def tenth_def)
  have f: "\<lfloor>(18014398509481985 :: rat) / 4\<rfloor> = 4503599627370496"
    by (rule floor_unique) simp_all
  have r: "round_half_even (x / 2 powi (- 52)) = 4503599627370496"
    unfolding xq round_half_even_def f Let_def by simp
  have y: "of_int (round_half_even (x / 2 powi (- 52))) * 2 powi (- 52) = (1 :: rat)"
    unfolding r by simp
  have "round_double x = Fin 1"
    unfolding round_double_unfold [OF x0] ax e y Let_def by simp
  then show ?thesis by (simp only: fmul_def x_def)
qed

section \<open>The threshold loop in integer arithmetic\<close>

lemma rat_of_div10: fixes M N :: int assumes "10 * M \<le> N" "N \<le> 10 * M + 9" 
  shows "10 * (of_int M :: rat) \<le> of_int N" "(of_int N :: rat) \<le> 10 * of_int M + 9"
proof -
  have "(of_int (10 * M) :: rat) \<le> of_int N" using assms(1) by (simp only: of_int_le_iff)
  then show "10 * (of_int M :: rat) \<le> of_int N" by simp
  have "(of_int N :: rat) \<le> of_int (10 * M + 9)" using assms(2) by (simp only: of_int_le_iff)
  then show "(of_int N :: rat) \<le> 10 * of_int M + 9" by simp
qed

lemma rat_of_bound50: fixes N :: int assumes "0 < N" "N < 2 ^ 50"
  shows "1 \<le> (of_int N :: rat)" "(of_int N :: rat) < 2 ^ 50"
proof -
  have "1 \<le> N" using assms by simp
  then have "(of_int 1 :: rat) \<le> of_int N" by (simp only: of_int_le_iff)
  then show "1 \<le> (of_int N :: rat)" by simp
  have "(of_int N :: rat) < of_int (2 ^ 50)" using assms(2) by (simp only: of_int_less_iff)
  then show "(of_int N :: rat) < 2 ^ 50" by simp
qed

lemma tenth_range: fixes n :: rat assumes "1 \<le> n" "n < 2 ^ 50"
  shows "0 < n * tenth" "n * tenth < 2 ^ 47"
  using assms unfolding tenth_def by simp_all

lemma tenth_sandwich: fixes n m :: rat assumes "10 * m \<le> n" "n \<le> 10 * m + 9" "1 \<le> n" "n < 2 ^ 50"
  shows "m \<le> n * tenth" "n * tenth \<le> m + 31 / 32"
proof -
  have b: "n < 1125899906842624" using assms(4) by simp
  show "m \<le> n * tenth" using assms(1,3) unfolding tenth_def by linarith
  show "n * tenth \<le> m + 31 / 32" using assms(1,2) b unfolding tenth_def by linarith
qed

lemma tenth_threshold:
  assumes N: "0 \<le> N" "N < 2 ^ 50"
  shows "\<exists>z k. fmul (of_int N) tenth = Fin (of_int z * 2 powi k) \<and> 0 \<le> z \<and> z \<le> 2 ^ 53
           \<and> - 1074 \<le> k \<and> k \<le> - 6
           \<and> of_int (N div 10) \<le> (of_int z :: rat) * 2 powi k
           \<and> (of_int z :: rat) * 2 powi k \<le> of_int (N div 10) + 31 / 32"
proof (cases "N = 0")
  case True
  have "fmul (of_int N) tenth = Fin (of_int 0 * 2 powi (- 6))"
    by (simp add: True fmul_def round_double_def)
  then show ?thesis using True by (intro exI [of _ 0] exI [of _ "- 6"]) simp
next
  case False
  define M where "M = N div 10"
  define x :: rat where "x = of_int N * tenth"
  have "10 * M \<le> N" "N \<le> 10 * M + 9" by (simp_all add: M_def)
  then have MN: "10 * (of_int M :: rat) \<le> of_int N" "(of_int N :: rat) \<le> 10 * of_int M + 9"
    by (rule rat_of_div10)+
  have "0 < N" using N False by simp
  then have Nr: "1 \<le> (of_int N :: rat)" "(of_int N :: rat) < 2 ^ 50"
    using N(2) by (rule rat_of_bound50)+
  have x0: "0 < x" unfolding x_def using Nr by (rule tenth_range)
  have "x < 2 ^ 47" unfolding x_def using Nr by (rule tenth_range)
  then have hi: "x < 2 powi 47" by simp
  have s1: "of_int M \<le> x" and s2: "x \<le> of_int M + 31 / 32"
    unfolding x_def using MN Nr by (rule tenth_sandwich)+
  have c1: "(of_int (32 * M) :: rat) / 32 = of_int M"
    and c2: "(of_int (32 * M + 31) :: rat) / 32 = of_int M + 31 / 32" by simp_all
  from round_double_grid [OF x0 hi] obtain z k where
    r: "round_double x = Fin (of_int z * 2 powi k)" and z: "0 \<le> z" "z \<le> 2 ^ 53"
    and k: "- 1074 \<le> k" "k \<le> - 6"
    and low: "\<And>m. of_int m / 32 \<le> x \<Longrightarrow> (of_int m :: rat) / 32 \<le> of_int z * 2 powi k"
    and up: "\<And>m. x \<le> of_int m / 32 \<Longrightarrow> of_int z * 2 powi k \<le> (of_int m :: rat) / 32"
    by blast
  have "of_int (32 * M) / 32 \<le> x" using s1 by (simp only: c1)
  then have "(of_int (32 * M) :: rat) / 32 \<le> of_int z * 2 powi k" by (rule low)
  then have 1: "of_int M \<le> (of_int z :: rat) * 2 powi k" by (simp only: c1)
  have "x \<le> of_int (32 * M + 31) / 32" using s2 by (simp only: c2)
  then have "of_int z * 2 powi k \<le> (of_int (32 * M + 31) :: rat) / 32" by (rule up)
  then have 2: "(of_int z :: rat) * 2 powi k \<le> of_int M + 31 / 32" by (simp only: c2)
  from r z k 1 2 show ?thesis unfolding fmul_def x_def M_def by blast
qed

lemma top_loop_exceed:
  fixes t :: rat
  assumes t: "t = of_int z * 2 powi k" "0 \<le> z" "z \<le> 2 ^ 53" "- 1074 \<le> k" "k \<le> - 6"
    and sand: "of_int (N div 10) \<le> t" "t \<le> of_int (N div 10) + 31 / 32"
    and es: "\<forall>e\<in>set es. 0 \<le> snd e \<and> snd e < 2 ^ 53"
    and S: "0 \<le> S" "of_int S \<le> t"
  shows "top_loop (Fin (t - of_int S)) es = (exceed_loop N S es, None)"
  using es S
proof (induction es arbitrary: S)
  case Nil
  show ?case by simp
next
  case (Cons e es)
  define c where "c = snd e"
  have c: "0 \<le> c" "c < 2 ^ 53" using Cons.prems(1) by (simp_all add: c_def)
  then have fc: "float_of_int c = Inr (of_int c)" by (intro float_of_int_exact) simp
  define x :: rat where "x = t - of_int (S + c)"
  have sub: "fsub (Fin (t - of_int S)) (of_int c) = round_double x"
    by (simp add: x_def algebra_simps)
  have step: "top_loop (Fin (t - of_int S)) (e # es) =
      (if negative (round_double x) then ([fst e], None)
       else (case top_loop (round_double x) es of (out, r) \<Rightarrow> (fst e # out, r)))"
    unfolding top_loop.simps c_def [symmetric] fc sum.case sub Let_def ..
  have spec: "exceed_loop N S (e # es) =
      fst e # (if N < 10 * (S + c) then [] else exceed_loop N (S + c) es)"
    by (simp add: c_def)
  show ?case
  proof (cases "N < 10 * (S + c)")
    case True
    then have "N div 10 + 1 \<le> S + c" by simp
    then have "(of_int (N div 10 + 1) :: rat) \<le> of_int (S + c)" by (simp only: of_int_le_iff)
    then have "(of_int (N div 10) :: rat) + 1 \<le> of_int (S + c)" by simp
    with sand(2) have xb: "x \<le> - (1 / 32)" unfolding x_def by linarith
    then have x0: "x < 0" by simp
    have "(2::rat) powi (- 1022) \<le> 2 powi (- 5)" by (rule power_int_increasing) simp_all
    also have "\<dots> = 1 / 32" by simp
    also have "\<dots> \<le> \<bar>x\<bar>" using xb by simp
    finally have "negative (round_double x)" by (rule round_double_neg [OF x0])
    then show ?thesis using True by (simp only: step spec if_True)
  next
    case False
    then have "S + c \<le> N div 10" by simp
    then have "(of_int (S + c) :: rat) \<le> of_int (N div 10)" by (simp only: of_int_le_iff)
    with sand(1) have S': "of_int (S + c) \<le> t" by simp
    then have x0: "0 \<le> x" by (simp add: x_def)
    define n where "n = nat (- k)"
    have "(2::rat) powi k * 2 powi (int n) = 2 powi (k + int n)" by (rule p2_add [symmetric])
    also have "k + int n = 0" using t(5) by (simp add: n_def)
    finally have kn: "(2::rat) powi k * of_int (2 ^ n) = 1" by simp
    define j where "j = z - (S + c) * 2 ^ n"
    have "of_int j * 2 powi k = of_int z * 2 powi k - of_int (S + c) * ((2::rat) powi k * of_int (2 ^ n))"
      by (simp add: j_def algebra_simps)
    then have xj: "x = of_int j * 2 powi k" by (simp only: kn x_def t(1)) simp
    have "0 \<le> of_int j * (2::rat) powi k" using x0 by (simp only: xj)
    then have "0 \<le> (of_int j :: rat)" using p2_pos [of k] by (auto simp: zero_le_mult_iff)
    then have j0: "0 \<le> j" by simp
    have "0 \<le> (S + c) * 2 ^ n" using Cons.prems(2) c(1) by simp
    then have "j \<le> z" by (simp add: j_def)
    with j0 t(3) have "\<bar>j\<bar> \<le> 2 ^ 53" by simp
    then have "round_double (of_int j * 2 powi k) = Fin (of_int j * 2 powi k)"
      using t(4,5) by (intro round_double_exact_le) simp_all
    then have rx: "round_double x = Fin x" by (simp only: xj)
    have es': "\<forall>e\<in>set es. 0 \<le> snd e \<and> snd e < 2 ^ 53" using Cons.prems(1) by simp
    have S0: "0 \<le> S + c" using Cons.prems(2) c(1) by simp
    have "top_loop (Fin (t - of_int (S + c))) es = (exceed_loop N (S + c) es, None)"
      using es' S0 S' by (rule Cons.IH)
    then show ?thesis using False x0
      by (simp only: step spec rx x_def [symmetric]) (simp add: not_less)
  qed
qed

lemma count_le_sum:
  fixes xs :: "int list"
  shows "\<forall>x\<in>set xs. 0 \<le> x \<Longrightarrow> 0 \<le> sum_list xs \<and> (\<forall>x\<in>set xs. x \<le> sum_list xs)"
  by (induction xs) fastforce+

lemma top_tenth_exceed:
  assumes nonneg: "\<forall>e\<in>set sd. 0 \<le> snd e" and bound: "num_of sd < 2 ^ 50"
  shows "top_tenth sd = (exceed_loop (num_of sd) 0 sd, None)"
proof -
  define N where "N = num_of sd"
  have N: "N = sum_list (map snd sd)" by (simp add: N_def num_of_sum)
  have "\<forall>x\<in>set (map snd sd). 0 \<le> x" using nonneg by simp
  from count_le_sum [OF this] have N0: "0 \<le> N" and le: "\<forall>e\<in>set sd. snd e \<le> N"
    by (simp_all add: N)
  have N1: "N < 2 ^ 50" using bound by (simp add: N_def)
  then have "\<bar>N\<bar> < 2 ^ 53" using N0 by simp
  then have fN: "float_of_int N = Inr (of_int N)" by (rule float_of_int_exact)
  from tenth_threshold [OF N0 N1] obtain z k where
    f: "fmul (of_int N) tenth = Fin (of_int z * 2 powi k)" and z: "0 \<le> z" "z \<le> 2 ^ 53"
    and k: "- 1074 \<le> k" "k \<le> - 6"
    and s1: "of_int (N div 10) \<le> (of_int z :: rat) * 2 powi k"
    and s2: "(of_int z :: rat) * 2 powi k \<le> of_int (N div 10) + 31 / 32"
    by blast
  define t :: rat where "t = of_int z * 2 powi k"
  have es: "\<forall>e\<in>set sd. 0 \<le> snd e \<and> snd e < 2 ^ 53"
  proof
    fix e assume e: "e \<in> set sd"
    with le N1 have "snd e < 2 ^ 50" by fastforce
    then have "snd e < 2 ^ 53" by simp
    with nonneg e show "0 \<le> snd e \<and> snd e < 2 ^ 53" by simp
  qed
  have t0: "of_int 0 \<le> t" using z(1) by (simp add: t_def)
  have "top_loop (Fin (t - of_int 0)) sd = (exceed_loop N 0 sd, None)"
    using t_def z k s1 [folded t_def] s2 [folded t_def] es _ t0
    by (rule top_loop_exceed) simp
  then show ?thesis
    by (simp add: top_tenth_def N_def [symmetric] fN f t_def)
qed

lemma float_of_int_overflow: "float_of_int (2 ^ 1024) = Inl OverflowError"
proof -
  define x :: rat where "x = 2 powi 1024"
  have x0: "x \<noteq> 0" by (simp add: x_def)
  have ax: "\<bar>x\<bar> = x" by (simp add: x_def)
  have il: "ilog2 x = 1024" unfolding x_def
    by (rule ilog2_unique) (simp_all only: p2_le_iff p2_less_iff)
  have e: "max (ilog2 x) (- 1022) - 52 = 972" by (simp add: il)
  have "x = 2 powi (52 + 972)" by (simp add: x_def)
  then have xq: "x = 2 powi 52 * 2 powi 972" by (simp only: p2_add)
  have xq2: "x / 2 powi 972 = of_int (2 ^ 52)" by (simp add: xq)
  have r: "round_half_even (x / 2 powi 972) = 2 ^ 52"
    unfolding xq2 by (rule round_half_even_of_int)
  have y: "of_int (round_half_even (x / 2 powi 972)) * 2 powi 972 = x"
    unfolding r by (simp add: xq)
  have big: "2 ^ 1024 \<le> \<bar>x\<bar>" by (simp add: x_def)
  have "round_double x = PInf"
    unfolding round_double_unfold [OF x0] ax e y Let_def using big by (simp add: x_def)
  moreover have "(of_int (2 ^ 1024) :: rat) = x" by (simp add: x_def)
  ultimately show ?thesis by (simp add: float_of_int_def)
qed

section \<open>Evaluation and further lemmas\<close>

lemmas eval_line = str_split_def isspace_def load_def load_line_def Let_def unsigned_int_def
  isdigit_def digits_value_def malformed_def record_of_def line_error_def

lemma most_common_sorted:
  assumes "sd \<noteq> []" and "sorted_wrt (\<lambda>a b. snd b \<le> snd a) sd"
  shows "most_common sd = Inr (map fst (filter (\<lambda>e. snd e = Max (snd ` set sd)) sd))"
proof -
  from assms(1) obtain e0 es where sd: "sd = e0 # es" by (cases sd) auto
  have m: "Max (snd ` set sd) = snd e0"
    using assms(2) unfolding sd by (rule sorted_desc_Max)
  show ?thesis unfolding m by (simp add: most_common_def sd)
qed

lemma load_map:
  assumes "load lns = Inr data"
  shows "map_of data = last_write (map record_of lns)" and "distinct (map fst data)"
proof -
  from assms have l: "load_from [] lns = Inr data" by (simp add: load_def)
  show "map_of data = last_write (map record_of lns)"
  proof
    fix k
    from load_from_Inr [OF l, of k]
    show "map_of data k = last_write (map record_of lns) k"
      by (simp split: option.splits)
  qed
  show "distinct (map fst data)" using l by (rule load_from_distinct) simp
qed

lemma num_sorted_data:
  assumes "mset (items data) = mset data"
  shows "num_of (sorted_data items data) = sum_list (map snd data)"
  using assms by (simp add: num_of_sum sum_sorted_data)

lemma prefix_sum_le:
  fixes xs :: "int list"
  assumes "\<forall>x\<in>set xs. 0 \<le> x"
  shows "sum_list (take n xs) \<le> sum_list xs"
proof -
  have "sum_list xs = sum_list (take n xs) + sum_list (drop n xs)"
    by (simp flip: sum_list_append)
  moreover have "0 \<le> sum_list (drop n xs)"
    using assms by (intro sum_list_nonneg) (auto dest: in_set_dropD)
  ultimately show ?thesis by simp
qed

lemma exceed_loop_prefix:
  assumes "es \<noteq> []"
  shows "\<exists>n. 0 < n \<and> n \<le> length es \<and> exceed_loop N S es = map fst (take n es)
           \<and> (\<forall>m. 0 < m \<and> m < n \<longrightarrow> 10 * (S + sum_list (map snd (take m es))) \<le> N)
           \<and> (n < length es \<longrightarrow> N < 10 * (S + sum_list (map snd (take n es))))"
  using assms
proof (induction es arbitrary: S)
  case Nil
  then show ?case by simp
next
  case (Cons e es)
  show ?case
  proof (cases "N < 10 * (S + snd e) \<or> es = []")
    case True
    then show ?thesis by (intro exI [of _ 1]) auto
  next
    case False
    then have ne: "es \<noteq> []" and le: "10 * (S + snd e) \<le> N" by simp_all
    from Cons.IH [OF ne, of "S + snd e"] obtain n where
      n: "0 < n" "n \<le> length es" "exceed_loop N (S + snd e) es = map fst (take n es)"
      and before: "\<And>m. 0 < m \<Longrightarrow> m < n \<Longrightarrow> 10 * (S + snd e + sum_list (map snd (take m es))) \<le> N"
      and at: "n < length es \<Longrightarrow> N < 10 * (S + snd e + sum_list (map snd (take n es)))"
      by blast
    have "10 * (S + sum_list (map snd (take m (e # es)))) \<le> N" if "0 < m" "m < Suc n" for m
    proof (cases m)
      case 0
      with that show ?thesis by simp
    next
      case (Suc m')
      show ?thesis
      proof (cases "m' = 0")
        case True
        with Suc le show ?thesis by simp
      next
        case False
        with that Suc before [of m'] show ?thesis by (simp add: add.assoc)
      qed
    qed
    moreover have "Suc n < length (e # es) \<longrightarrow> N < 10 * (S + sum_list (map snd (take (Suc n) (e # es))))"
      using at by (simp add: add.assoc)
    moreover have "exceed_loop N S (e # es) = map fst (take (Suc n) (e # es))"
      using le n(3) by simp
    moreover have "0 < Suc n" "Suc n \<le> length (e # es)" using n(2) by simp_all
    ultimately show ?thesis by blast
  qed
qed

lemma top_loop_prefix: "\<exists>n\<le>length es. fst (top_loop t es) = map fst (take n es)"
proof (induction es arbitrary: t)
  case Nil
  show ?case by simp
next
  case (Cons e es)
  show ?case
  proof (cases "float_of_int (snd e)")
    case (Inl err)
    then have "fst (top_loop t (e # es)) = map fst (take 1 (e # es))" by simp
    then show ?thesis by (intro exI [of _ 1]) simp
  next
    case (Inr c)
    show ?thesis
    proof (cases "negative (fsub t c)")
      case True
      with Inr have "fst (top_loop t (e # es)) = map fst (take 1 (e # es))" by simp
      then show ?thesis by (intro exI [of _ 1]) simp
    next
      case False
      from Cons.IH [of "fsub t c"] obtain n where
        n: "n \<le> length es" "fst (top_loop (fsub t c) es) = map fst (take n es)" by blast
      from Inr False n(2) have "fst (top_loop t (e # es)) = map fst (take (Suc n) (e # es))"
        by (cases "top_loop (fsub t c) es") (simp add: Let_def)
      with n(1) show ?thesis by (intro exI [of _ "Suc n"]) simp
    qed
  qed
qed

lemma top_tenth_prefix: "\<exists>n\<le>length sd. fst (top_tenth sd) = map fst (take n sd)"
proof (cases "float_of_int (num_of sd)")
  case (Inl err)
  then show ?thesis by (intro exI [of _ 0]) (simp add: top_tenth_def)
next
  case (Inr f)
  with top_loop_prefix [of sd "fmul f tenth"] show ?thesis by (simp add: top_tenth_def)
qed

lemma top_loop_first: "\<exists>rest r. top_loop t (e # es) = (fst e # rest, r)"
  by (simp add: Let_def split: sum.splits prod.splits)

lemma float_of_int_cases: "float_of_int n = Inl OverflowError \<or> (\<exists>y. float_of_int n = Inr y)"
  by (simp add: float_of_int_def split: pyfloat.splits)

lemma sum_list_zero: "\<forall>e\<in>set es. snd e = (0::int) \<Longrightarrow> sum_list (map snd es) = 0"
  by (induction es) simp_all

lemma exceed_loop_zero: "\<forall>e\<in>set es. snd e = 0 \<Longrightarrow> exceed_loop 0 0 es = map fst es"
  by (induction es) simp_all

lemma sorted_data_unique:
  assumes "mset (items1 d) = mset d" and "mset (items2 d) = mset d" and "inj_on snd (set d)"
  shows "sorted_data items1 d = sorted_data items2 d"
proof -
  have "set (items1 d) = set d" using assms(1) by (rule mset_eq_setD)
  with assms(3) have inj: "inj_on snd (set (items1 d))" by simp
  have "mset (items1 d) = mset (sort_key snd (items2 d))" using assms(1,2) by simp
  then have "sort_key snd (items1 d) = sort_key snd (items2 d)"
    using inj by (rule sort_key_inj_key_eq) simp
  then show ?thesis by (simp add: sorted_data_def)
qed

lemma most_common_set:
  assumes "mset sd1 = mset sd2"
    and "sorted_wrt (\<lambda>a b. snd b \<le> snd a) sd1" and "sorted_wrt (\<lambda>a b. snd b \<le> snd a) sd2"
  shows "map_sum id set (most_common sd1) = map_sum id set (most_common sd2)"
proof (cases "sd1 = []")
  case True
  with assms(1) have "sd2 = []" by simp
  with True show ?thesis by simp
next
  case False
  with assms(1) have ne2: "sd2 \<noteq> []" by auto
  have s: "set sd1 = set sd2" using assms(1) by (rule mset_eq_setD)
  show ?thesis
    unfolding most_common_sorted [OF False assms(2)] most_common_sorted [OF ne2 assms(3)]
    by (simp add: s)
qed

section \<open>The claims\<close>

text \<open>
  C1 (amended). The keys printed in the last section are always the keys of a prefix of the
  ranked sequence. On a non-empty ranked sequence of non-negative counts whose total is
  below \<open>2^50\<close>, it is the shortest non-empty prefix whose counts add up to strictly
  more than a tenth of the total, and the whole sequence when the total is 0: the
  floating-point loop (print the key, subtract the count from the threshold that starts at
  \<open>0.1 * total\<close>, stop once it is negative) agrees with that rule in exact integer
  arithmetic. A prefix whose counts add up to exactly a tenth does not stop it.
\<close>

theorem top_tenth_shortest_prefix:
  "(\<exists>n\<le>length sd. fst (top_tenth sd) = map fst (take n sd))
   \<and> (sd \<noteq> [] \<and> (\<forall>e\<in>set sd. 0 \<le> snd e) \<and> num_of sd < 2 ^ 50 \<longrightarrow>
        top_tenth sd = (exceed_loop (num_of sd) 0 sd, None)
        \<and> (\<exists>n. 0 < n \<and> n \<le> length sd \<and> top_tenth sd = (map fst (take n sd), None)
             \<and> (\<forall>m. 0 < m \<and> m < n \<longrightarrow> 10 * sum_list (map snd (take m sd)) \<le> num_of sd)
             \<and> (0 < num_of sd \<longrightarrow> num_of sd < 10 * sum_list (map snd (take n sd)))
             \<and> (num_of sd = 0 \<longrightarrow> n = length sd)))"
proof (intro conjI impI)
  show "\<exists>n\<le>length sd. fst (top_tenth sd) = map fst (take n sd)" by (rule top_tenth_prefix)
next
  assume a: "sd \<noteq> [] \<and> (\<forall>e\<in>set sd. 0 \<le> snd e) \<and> num_of sd < 2 ^ 50"
  then have ne: "sd \<noteq> []" and nonneg: "\<forall>e\<in>set sd. 0 \<le> snd e" and bound: "num_of sd < 2 ^ 50"
    by simp_all
  show t: "top_tenth sd = (exceed_loop (num_of sd) 0 sd, None)"
    using nonneg bound by (rule top_tenth_exceed)
  from exceed_loop_prefix [OF ne, of "num_of sd" 0] obtain n where
    n: "0 < n" "n \<le> length sd" "exceed_loop (num_of sd) 0 sd = map fst (take n sd)"
    and before: "\<forall>m. 0 < m \<and> m < n \<longrightarrow> 10 * sum_list (map snd (take m sd)) \<le> num_of sd"
    and at: "n < length sd \<longrightarrow> num_of sd < 10 * sum_list (map snd (take n sd))"
    by auto
  have "\<forall>x\<in>set (map snd sd). 0 \<le> x" using nonneg by simp
  then have "sum_list (take n (map snd sd)) \<le> sum_list (map snd sd)" by (rule prefix_sum_le)
  then have le: "sum_list (map snd (take n sd)) \<le> num_of sd" by (simp add: take_map num_of_sum)
  have pos: "num_of sd < 10 * sum_list (map snd (take n sd))" if "0 < num_of sd"
  proof (cases "n < length sd")
    case True
    with at show ?thesis by simp
  next
    case False
    with n(2) have "take n sd = sd" by simp
    with that show ?thesis by (simp add: num_of_sum)
  qed
  have zero: "n = length sd" if "num_of sd = 0"
  proof (rule ccontr)
    assume "n \<noteq> length sd"
    with n(2) at have "num_of sd < 10 * sum_list (map snd (take n sd))" by simp
    with le that show False by simp
  qed
  from t n before pos zero
  show "\<exists>n. 0 < n \<and> n \<le> length sd \<and> top_tenth sd = (map fst (take n sd), None)
             \<and> (\<forall>m. 0 < m \<and> m < n \<longrightarrow> 10 * sum_list (map snd (take m sd)) \<le> num_of sd)
             \<and> (0 < num_of sd \<longrightarrow> num_of sd < 10 * sum_list (map snd (take n sd)))
             \<and> (num_of sd = 0 \<longrightarrow> n = length sd)"
    by auto
qed

theorem top_tenth_shortest_prefix_witness:
  "top_tenth [(''the cat'', 5), (''cat sat'', 3), (''sat mat'', 3)] = ([''the cat''], None)
   \<and> top_tenth [(''a b'', 9), (''b c'', 1), (''c d'', 1), (''d e'', 1)] = ([''a b''], None)
   \<and> top_tenth [(''a b'', 1), (''b c'', 1), (''c d'', 1), (''d e'', 1), (''e f'', 1),
                 (''f g'', 1), (''g h'', 1), (''h i'', 1), (''i j'', 1), (''j k'', 1), (''k l'', 1)]
       = ([''a b'', ''b c''], None)"
  using top_tenth_shortest_prefix [of "[(''the cat'', 5), (''cat sat'', 3), (''sat mat'', 3)]"]
    top_tenth_shortest_prefix [of "[(''a b'', 9), (''b c'', 1), (''c d'', 1), (''d e'', 1)]"]
    top_tenth_shortest_prefix [of "[(''a b'', 1), (''b c'', 1), (''c d'', 1), (''d e'', 1), (''e f'', 1),
                 (''f g'', 1), (''g h'', 1), (''h i'', 1), (''i j'', 1), (''j k'', 1), (''k l'', 1)]"]
  by (simp add: num_of_def)

text \<open>
  As stated the claim fails where a prefix adds up to exactly a tenth of the total. Ten
  bigrams of count 1 have the total 10 and the threshold 1.0; after the first key the
  threshold is 0.0, which is not negative, so a second key is printed. The counts printed
  add up to 2, although the one-key prefix already adds up to \<open>1 \<ge> 0.1 * 10\<close>.
\<close>

theorem top_tenth_boundary_counterexample:
  "top_tenth ten_ones = (map fst (take 2 ten_ones), None)
   \<and> fmul (of_int (num_of ten_ones)) tenth = Fin 1
   \<and> (1 / 10) * of_int (num_of ten_ones) \<le> (of_int (sum_list (map snd (take 1 ten_ones))) :: rat)
   \<and> sum_list (map snd (take 1 ten_ones)) < sum_list (map snd (take 2 ten_ones))"
proof -
  have n: "num_of ten_ones = 10" by (simp add: num_of_def ten_ones_def)
  have "top_tenth ten_ones = (exceed_loop (num_of ten_ones) 0 ten_ones, None)"
    by (rule top_tenth_exceed) (simp_all add: n, simp add: ten_ones_def)
  then have "top_tenth ten_ones = (map fst (take 2 ten_ones), None)"
    by (simp add: n) (simp add: ten_ones_def)
  moreover have "fmul (of_int (num_of ten_ones)) tenth = Fin 1"
    unfolding n using ten_tenths by simp
  ultimately show ?thesis by (simp add: n) (simp add: ten_ones_def)
qed

text \<open>
  C2. On a non-empty ranked sequence (sorted by count, largest first) the most-common loop
  prints, one per line and in ranked order, the keys of exactly the entries whose count is
  the maximum count of the sequence, and no other key.
\<close>

theorem most_common_exact:
  assumes "sd \<noteq> []" and "sorted_wrt (\<lambda>a b. snd b \<le> snd a) sd"
  shows "\<exists>keys. most_common sd = Inr keys
           \<and> keys = map fst (filter (\<lambda>e. snd e = Max (snd ` set sd)) sd)
           \<and> set keys = {k. (k, Max (snd ` set sd)) \<in> set sd}"
proof -
  have "most_common sd = Inr (map fst (filter (\<lambda>e. snd e = Max (snd ` set sd)) sd))"
    using assms by (rule most_common_sorted)
  moreover have "set (map fst (filter (\<lambda>e. snd e = Max (snd ` set sd)) sd))
      = {k. (k, Max (snd ` set sd)) \<in> set sd}"
    by force
  ultimately show ?thesis by blast
qed

theorem most_common_exact_witness:
  "most_common [(''the cat'', 5), (''of the'', 5), (''cat sat'', 3)] = Inr [''the cat'', ''of the'']
   \<and> Max (snd ` set [(''the cat'', 5 :: int), (''of the'', 5), (''cat sat'', 3)]) = 5"
  using most_common_exact [of "[(''the cat'', 5), (''of the'', 5), (''cat sat'', 3)]"]
  by (simp add: most_common_def)

text \<open>
  C3. After a load that succeeds, the dictionary holds for every key the count of the
  last line with that key (last write wins) and holds every key once; the total that the
  script prints is the sum of the counts over those unique keys. On the lines \<open>a b 3\<close>,
  \<open>a b 5\<close> the dictionary holds 5 under \<open>a b\<close> and the total is 5, not 8.
\<close>

theorem load_last_write_wins:
  assumes "load lns = Inr data" and "mset (items data) = mset data"
  shows "map_of data = last_write (map record_of lns)
       \<and> distinct (map fst data)
       \<and> num_of (sorted_data items data) = (\<Sum>k\<in>dom (map_of data). the (map_of data k))"
proof -
  have d: "distinct (map fst data)" using assms(1) by (rule load_map)
  have "num_of (sorted_data items data) = sum_list (map snd data)"
    using assms(2) by (rule num_sorted_data)
  also have "\<dots> = (\<Sum>k\<in>dom (map_of data). the (map_of data k))"
    using d by (rule sum_unique_keys [symmetric])
  finally show ?thesis using load_map [OF assms(1)] by simp
qed

theorem load_last_write_wins_witness:
  "load [''a b 3'', ''a b 5''] = Inr [(''a b'', 5)]
   \<and> last_write (map record_of [''a b 3'', ''a b 5'']) ''a b'' = Some 5
   \<and> num_of (sorted_data id [(''a b'', 5)]) = 5
   \<and> fst (run id [''a b 3'', ''a b 5'']) ! 0 = ''the total number of bigrams:  5''"
proof -
  have l: "load [''a b 3'', ''a b 5''] = Inr [(''a b'', 5)]" by (simp add: eval_line)
  have m: "mset (id [(''a b'', 5 :: int)]) = mset [(''a b'', 5)]" by simp
  note w = load_last_write_wins [of "[''a b 3'', ''a b 5'']" "[(''a b'', 5)]" id, OF l m]
  from w have A: "map_of [(''a b'', 5 :: int)] = last_write (map record_of [''a b 3'', ''a b 5''])"
    by (rule conjunct1)
  have "last_write (map record_of [''a b 3'', ''a b 5'']) ''a b'' = Some 5"
    by (simp only: A [symmetric]) simp
  moreover have n5: "num_of (sorted_data id [(''a b'', 5)]) = 5"
    by (simp add: num_of_def sorted_data_def)
  moreover have "fst (run id [''a b 3'', ''a b 5'']) ! 0 = ''the total number of bigrams:  5''"
    by (simp add: run_def l report_def Let_def n5 str_int_def str_nat.simps
        split: sum.splits prod.splits)
  ultimately show ?thesis using l by simp
qed

text \<open>
  C4. Whatever order the dictionary hands out its items in, \<open>sorted_data\<close> is a
  permutation of the dictionary's entries, sorted by count with the largest first, and so
  the counts of the ranked sequence add up to the counts stored in the dictionary.
\<close>

theorem sorted_data_permutes:
  assumes "mset (items data) = mset data"
  shows "mset (sorted_data items data) = mset data
       \<and> sorted_wrt (\<lambda>a b. snd b \<le> snd a) (sorted_data items data)
       \<and> sum_list (map snd (sorted_data items data)) = sum_list (map snd data)"
  using assms by (simp add: mset_sorted_data sorted_sorted_data sum_sorted_data)

theorem sorted_data_permutes_witness:
  "sorted_data rev [(''cat sat'', 3), (''the cat'', 5), (''sat mat'', 3)]
     = [(''the cat'', 5), (''cat sat'', 3), (''sat mat'', 3)]
   \<and> sum_list (map snd (sorted_data rev [(''cat sat'', 3), (''the cat'', 5), (''sat mat'', 3)])) = 11"
  using sorted_data_permutes [of rev "[(''cat sat'', 3), (''the cat'', 5), (''sat mat'', 3)]"]
  by (simp add: sorted_data_def)

text \<open>
  C5. A line with at least three tokens is split on whitespace; its key is token 0, one
  space, token 1; token 2 is parsed as an integer (ValueError if it is none) and stored
  under the key, replacing what the key held and leaving every other key as it was.
\<close>

theorem load_line_stores:
  assumes "3 \<le> length (str_split raw)"
  shows "(py_int (str_split raw ! 2) = None \<longrightarrow> load_line data raw = Inl ValueError)
       \<and> (\<forall>n. py_int (str_split raw ! 2) = Some n \<longrightarrow>
             (\<exists>data'. load_line data raw = Inr data'
                \<and> map_of data' = (map_of data)(str_split raw ! 0 @ '' '' @ str_split raw ! 1 \<mapsto> n)))"
  using assms by (simp add: load_line_def Let_def map_of_dict_set)

theorem load_line_stores_witness:
  "3 \<le> length (str_split ''the  cat 7'')
   \<and> load_line [(''the cat'', 5), (''cat sat'', 3)] ''the  cat 7'' = Inr [(''the cat'', 7), (''cat sat'', 3)]"
  using load_line_stores [of "''the  cat 7''" "[(''the cat'', 5), (''cat sat'', 3)]"]
  by (simp add: eval_line)

text \<open>
  C6. The load fails exactly when some line is malformed (fewer than three tokens, or a
  third token that is no integer). The exception is that of the first malformed line, the
  lines after it are not read, and the run ends with it having printed nothing.
\<close>

theorem load_fails_iff_malformed:
  "((\<exists>e. load lns = Inl e) \<longleftrightarrow> (\<exists>raw\<in>set lns. malformed raw))
   \<and> (\<forall>pre raw post. (\<forall>r\<in>set pre. \<not> malformed r) \<and> malformed raw \<longrightarrow>
         load (pre @ raw # post) = Inl (line_error raw)
         \<and> run items (pre @ raw # post) = ([], Some (line_error raw)))"
  by (simp add: load_def load_from_Inl_iff load_from_bad run_def)

theorem load_fails_iff_malformed_witness:
  "load [''a b 1'', ''c d'', ''e f x''] = Inl IndexError
   \<and> run id [''a b 1'', ''c d'', ''e f x''] = ([], Some IndexError)
   \<and> load [''a b 1'', ''e f x'', ''c d''] = Inl ValueError
   \<and> malformed ''c d'' \<and> malformed ''e f x'' \<and> \<not> malformed ''a b 1''"
proof -
  have a: "\<not> malformed ''a b 1''" and c: "malformed ''c d''" and e: "malformed ''e f x''"
    by (simp_all add: eval_line)
  have le: "line_error ''c d'' = IndexError" "line_error ''e f x'' = ValueError"
    by (simp_all add: eval_line)
  note first_bad = load_fails_iff_malformed [of "[]" id, THEN conjunct2, rule_format]
  have 1: "load ([''a b 1''] @ ''c d'' # [''e f x'']) = Inl (line_error ''c d'')
      \<and> run id ([''a b 1''] @ ''c d'' # [''e f x'']) = ([], Some (line_error ''c d''))"
    using a c by (intro first_bad) simp
  have 2: "load ([''a b 1''] @ ''e f x'' # [''c d'']) = Inl (line_error ''e f x'')"
    using a e first_bad [of "[''a b 1'']" "''e f x''" "[''c d'']"] by simp
  from 1 2 a c e show ?thesis by (simp add: le)
qed

text \<open>
  C7. With no line to read the dictionary and the ranked sequence are empty; the script
  prints the total 0 and the heading of the most-common section, and then
  \<open>sorted_data[0]\<close> raises IndexError: no most-common key and nothing of the last
  section is printed.
\<close>

theorem empty_input_index_error:
  assumes "mset (items []) = mset []"
  shows "load [] = Inr [] \<and> sorted_data items [] = []
       \<and> most_common (sorted_data items []) = Inl IndexError
       \<and> run items [] = ([''the total number of bigrams:  0'', ''the most common bigram: ''],
                          Some IndexError)"
proof -
  from assms have i: "items [] = []" by simp
  have s: "sorted_data items [] = []" by (simp add: sorted_data_def i)
  have r: "report [] = ([''the total number of bigrams:  0'', ''the most common bigram: ''],
                          Some IndexError)"
    by (simp add: report_def most_common_def num_of_def str_int_def str_nat.simps)
  show ?thesis by (simp add: load_def s run_def r most_common_def)
qed

theorem empty_input_index_error_witness:
  "run id [] = ([''the total number of bigrams:  0'', ''the most common bigram: ''],
                Some IndexError)
   \<and> main id [] = ([''the total number of bigrams:  0'', ''the most common bigram: ''],
                Some IndexError)"
  using empty_input_index_error [of id] by (simp add: main_def readlines_def)

text \<open>
  C8 (amended). The script's output is a function of the lines of the file and of the order
  in which the dictionary hands out its items. A load that fails gives the same output
  in every run. After a load that succeeds, the total and the set of most-common keys are
  the same for every such order, and two runs print the same whenever the dictionary hands
  out its items in the same order in both or no two keys have the same count.
\<close>

theorem run_order_dependence:
  "(\<forall>e. load lns = Inl e \<longrightarrow> run items1 lns = run items2 lns)
   \<and> (\<forall>data. load lns = Inr data \<and> mset (items1 data) = mset data
               \<and> mset (items2 data) = mset data \<longrightarrow>
         num_of (sorted_data items1 data) = num_of (sorted_data items2 data)
         \<and> map_sum id set (most_common (sorted_data items1 data))
             = map_sum id set (most_common (sorted_data items2 data))
         \<and> (items1 data = items2 data \<or> inj_on snd (set data) \<longrightarrow>
               run items1 lns = run items2 lns))"
proof (intro conjI allI impI)
  fix e assume "load lns = Inl e"
  then show "run items1 lns = run items2 lns" by (simp add: run_def)
next
  fix data
  assume a: "load lns = Inr data \<and> mset (items1 data) = mset data \<and> mset (items2 data) = mset data"
  then have m1: "mset (items1 data) = mset data" and m2: "mset (items2 data) = mset data"
    by simp_all
  show "num_of (sorted_data items1 data) = num_of (sorted_data items2 data)"
    by (simp add: num_sorted_data m1 m2)
  have "mset (sorted_data items1 data) = mset (sorted_data items2 data)"
    by (simp add: mset_sorted_data m1 m2)
  then show "map_sum id set (most_common (sorted_data items1 data))
      = map_sum id set (most_common (sorted_data items2 data))"
    by (rule most_common_set) (rule sorted_sorted_data)+
  assume "items1 data = items2 data \<or> inj_on snd (set data)"
  then have "sorted_data items1 data = sorted_data items2 data"
  proof
    assume "items1 data = items2 data"
    then show ?thesis by (simp add: sorted_data_def)
  next
    assume "inj_on snd (set data)"
    with m1 m2 show ?thesis by (rule sorted_data_unique)
  qed
  with a show "run items1 lns = run items2 lns" by (simp add: run_def)
qed

theorem run_order_dependence_witness:
  "run id [''a b 1'', ''c d 2''] = run rev [''a b 1'', ''c d 2'']
   \<and> load [''a b 1'', ''c d 2''] = Inr [(''a b'', 1), (''c d'', 2)]
   \<and> load [''a b 1'', ''c d''] = Inl IndexError
   \<and> run id [''a b 1'', ''c d''] = run rev [''a b 1'', ''c d'']"
proof -
  have l: "load [''a b 1'', ''c d 2''] = Inr [(''a b'', 1), (''c d'', 2)]"
    and f: "load [''a b 1'', ''c d''] = Inl IndexError"
    by (simp_all add: eval_line)
  have "run id [''a b 1'', ''c d 2''] = run rev [''a b 1'', ''c d 2'']"
    using run_order_dependence [of "[''a b 1'', ''c d 2'']" id rev] l by simp
  moreover have "run id [''a b 1'', ''c d''] = run rev [''a b 1'', ''c d'']"
    using run_order_dependence [of "[''a b 1'', ''c d'']" id rev] f by simp
  ultimately show ?thesis using l f by simp
qed

text \<open>
  As stated the claim fails where two keys have the same count: \<open>id\<close> and \<open>rev\<close> both
  hand out the items of the dictionary, each in an order the script does not choose, and
  on the lines \<open>a b 1\<close>, \<open>c d 1\<close> the two runs print the most common bigrams in a
  different order and a different key in the last section.
\<close>

theorem run_tie_order_counterexample:
  "run id [''a b 1'', ''c d 1'']
     = ([''the total number of bigrams:  2'', ''the most common bigram: '', ''c d'', ''a b'',
         ''the number of bigrams required to add up to 10% of all bigrams'', ''c d''], None)
   \<and> run rev [''a b 1'', ''c d 1'']
     = ([''the total number of bigrams:  2'', ''the most common bigram: '', ''a b'', ''c d'',
         ''the number of bigrams required to add up to 10% of all bigrams'', ''a b''], None)
   \<and> run id [''a b 1'', ''c d 1''] \<noteq> run rev [''a b 1'', ''c d 1'']
   \<and> load [''a b 1'', ''c d 1''] = Inr [(''a b'', 1), (''c d'', 1)]
   \<and> mset (id [(''a b'', 1 :: int), (''c d'', 1)]) = mset [(''a b'', 1), (''c d'', 1)]
   \<and> mset (rev [(''a b'', 1 :: int), (''c d'', 1)]) = mset [(''a b'', 1), (''c d'', 1)]"
proof -
  have l: "load [''a b 1'', ''c d 1''] = Inr [(''a b'', 1), (''c d'', 1)]"
    by (simp add: eval_line)
  have s1: "sorted_data id [(''a b'', 1), (''c d'', 1)] = [(''c d'', 1), (''a b'', 1)]"
    and s2: "sorted_data rev [(''a b'', 1), (''c d'', 1)] = [(''a b'', 1), (''c d'', 1)]"
    by (simp_all add: sorted_data_def)
  have t1: "top_tenth [(''c d'', 1), (''a b'', 1)] = ([''c d''], None)"
    using top_tenth_exceed [of "[(''c d'', 1), (''a b'', 1)]"] by (simp add: num_of_def)
  have t2: "top_tenth [(''a b'', 1), (''c d'', 1)] = ([''a b''], None)"
    using top_tenth_exceed [of "[(''a b'', 1), (''c d'', 1)]"] by (simp add: num_of_def)
  have r1: "run id [''a b 1'', ''c d 1'']
     = ([''the total number of bigrams:  2'', ''the most common bigram: '', ''c d'', ''a b'',
         ''the number of bigrams required to add up to 10% of all bigrams'', ''c d''], None)"
    by (simp add: run_def l s1 report_def most_common_def t1 num_of_def str_int_def str_nat.simps)
  have r2: "run rev [''a b 1'', ''c d 1'']
     = ([''the total number of bigrams:  2'', ''the most common bigram: '', ''a b'', ''c d'',
         ''the number of bigrams required to add up to 10% of all bigrams'', ''a b''], None)"
    by (simp add: run_def l s2 report_def most_common_def t2 num_of_def str_int_def str_nat.simps)
  show ?thesis unfolding r1 r2 l by simp
qed

text \<open>
  C9. Nothing checks the sign of a count: a minus sign followed by digits parses as the
  negative integer; a line whose third token parses as a negative integer is loaded
  without an error and the negative count is stored under the line's key; and the total
  is the plain sum of the stored counts, so a stored negative count lowers it.
\<close>

theorem negative_count_accepted:
  "(ds \<noteq> [] \<and> list_all isdigit ds \<longrightarrow> py_int (CHR ''-'' # ds) = Some (- digits_value ds))
   \<and> (3 \<le> length (str_split raw) \<and> py_int (str_split raw ! 2) = Some n \<and> n < 0 \<longrightarrow>
        (\<exists>data'. load_line data raw = Inr data'
           \<and> map_of data' (str_split raw ! 0 @ '' '' @ str_split raw ! 1) = Some n))
   \<and> (mset (items d) = mset d \<and> (k, c) \<in> set d \<longrightarrow>
        num_of (sorted_data items d) = c + sum_list (map snd (remove1 (k, c) d)))"
proof -
  have "num_of (sorted_data items d) = c + sum_list (map snd (remove1 (k, c) d))"
    if "mset (items d) = mset d" and "(k, c) \<in> set d"
  proof -
    have "sum_list (map snd d) = snd (k, c) + sum_list (map snd (remove1 (k, c) d))"
      using that(2) by (rule sum_list_map_remove1)
    then show ?thesis using that(1) by (simp add: num_sorted_data)
  qed
  then show ?thesis
    by (simp add: unsigned_int_def load_line_def Let_def map_of_dict_set)
qed

theorem negative_count_accepted_witness:
  "py_int ''-5'' = Some (- 5)
   \<and> (\<exists>data'. load_line [(''c d'', 2)] ''a b -5'' = Inr data' \<and> map_of data' ''a b'' = Some (- 5))
   \<and> load [''c d 2'', ''a b -5''] = Inr [(''c d'', 2), (''a b'', - 5)]
   \<and> num_of (sorted_data id [(''c d'', 2), (''a b'', - 5)]) = - 3
   \<and> fst (run id [''c d 2'', ''a b -5'']) ! 0 = ''the total number of bigrams:  -3''"
proof -
  have p: "py_int ''-5'' = Some (- 5)"
    using negative_count_accepted [where ds = "''5''"] by (simp add: isdigit_def digits_value_def)
  have s: "str_split ''a b -5'' = [''a'', ''b'', ''-5'']" by (simp add: eval_line)
  have st: "\<exists>data'. load_line [(''c d'', 2)] ''a b -5'' = Inr data' \<and> map_of data' ''a b'' = Some (- 5)"
    using negative_count_accepted [where raw = "''a b -5''" and n = "- 5" and data = "[(''c d'', 2)]"] p
    by (simp add: s)
  have l: "load [''c d 2'', ''a b -5''] = Inr [(''c d'', 2), (''a b'', - 5)]"
    by (simp add: eval_line)
  have n: "num_of (sorted_data id [(''c d'', 2), (''a b'', - 5)]) = - 3"
    using negative_count_accepted [where items = id and d = "[(''c d'', 2), (''a b'', - 5)]"
        and k = "''a b''" and c = "- 5"]
    by simp
  have "fst (run id [''c d 2'', ''a b -5'']) ! 0 = ''the total number of bigrams:  -3''"
    by (simp add: run_def l report_def Let_def n str_int_def str_nat.simps
        split: sum.splits prod.splits)
  with p st l n show ?thesis by simp
qed

text \<open>
  C10 (amended). On a non-empty ranked sequence whose total can be converted to a double
  (as every total below \<open>2^1023\<close> in absolute value can), the last section prints at
  least one key, the first of the sequence, because a key is printed before the threshold
  is tested; and when every count is 0 it prints every key.
\<close>

theorem top_tenth_emits_first:
  assumes "sd \<noteq> []"
  shows "(float_of_int (num_of sd) \<noteq> Inl OverflowError \<longrightarrow>
            (\<exists>rest r. top_tenth sd = (fst (hd sd) # rest, r)))
       \<and> (\<bar>num_of sd\<bar> < 2 ^ 1023 \<longrightarrow> float_of_int (num_of sd) \<noteq> Inl OverflowError)
       \<and> ((\<forall>e\<in>set sd. snd e = 0) \<longrightarrow> top_tenth sd = (map fst sd, None))"
proof (intro conjI impI)
  assume "\<bar>num_of sd\<bar> < 2 ^ 1023"
  then have "\<exists>y. float_of_int (num_of sd) = Inr y" by (rule float_of_int_finite)
  then show "float_of_int (num_of sd) \<noteq> Inl OverflowError" by auto
next
  assume "float_of_int (num_of sd) \<noteq> Inl OverflowError"
  with float_of_int_cases [of "num_of sd"] obtain y where y: "float_of_int (num_of sd) = Inr y"
    by blast
  have tt: "top_tenth sd = top_loop (fmul y tenth) sd" by (simp add: top_tenth_def y)
  from top_loop_first [of "fmul y tenth" "hd sd" "tl sd"]
  have "\<exists>rest r. top_loop (fmul y tenth) sd = (fst (hd sd) # rest, r)"
    using assms by simp
  then show "\<exists>rest r. top_tenth sd = (fst (hd sd) # rest, r)" by (simp only: tt)
next
  assume z: "\<forall>e\<in>set sd. snd e = 0"
  then have n: "num_of sd = 0" by (simp add: num_of_sum sum_list_zero)
  have "top_tenth sd = (exceed_loop (num_of sd) 0 sd, None)"
    by (rule top_tenth_exceed) (simp_all add: z n)
  then show "top_tenth sd = (map fst sd, None)" by (simp add: n exceed_loop_zero [OF z])
qed

theorem top_tenth_emits_first_witness:
  "top_tenth [(''a b'', 0), (''c d'', 0), (''e f'', 0)] = ([''a b'', ''c d'', ''e f''], None)
   \<and> (\<exists>rest r. top_tenth [(''the cat'', 5), (''cat sat'', 3)] = (''the cat'' # rest, r))"
proof -
  have "float_of_int (num_of [(''the cat'', 5), (''cat sat'', 3)]) = Inr 8"
    using float_of_int_exact [of 8] by (simp add: num_of_def)
  then show ?thesis
    using top_tenth_emits_first [of "[(''a b'', 0), (''c d'', 0), (''e f'', 0)]"]
      top_tenth_emits_first [of "[(''the cat'', 5), (''cat sat'', 3)]"]
    by simp
qed

text \<open>
  As stated the claim fails where the total is too large for a double: with the single
  count \<open>2^1024\<close> the product \<open>num * 0.1\<close> raises OverflowError before the loop is
  entered, and the last section prints no key.
\<close>

theorem top_tenth_overflow_counterexample:
  "top_tenth [(''a b'', 2 ^ 1024)] = ([], Some OverflowError)"
proof -
  have n: "num_of [(''a b'', 2 ^ 1024)] = 2 ^ 1024" by (simp add: num_of_def)
  show ?thesis unfolding top_tenth_def n float_of_int_overflow by simp
qed

end
